theory Spec2Isabelle
  imports Main "HOL-Library.Word"
begin

unbundle bit_operations_syntax

section \<open>The machine state of class NES (clientv0.py)\<close>

text \<open>
  Python integers are unbounded, so registers and memory cells are \<open>int\<close>; the
  operators \<open>&\<close>, \<open>|\<close> and \<open><<\<close> of Python are \<open>AND\<close>, \<open>OR\<close> and \<open>push_bit\<close>
  on \<open>int\<close> (two's complement on negative numbers in both). The contents of a file
  opened in mode \<open>"rb"\<close> are a \<open>bytes\<close> object: a list of 8-bit words.
  The field \<open>thread\<close> (a thread handle) is not part of the sequential state.
\<close>

type_synonym byte = "8 word"

datatype error = IndexError

record nes =
  memory :: "int list"
  pc :: int
  sp :: int
  A :: int
  X :: int
  Y :: int
  P :: int
  running :: bool

text \<open>
  A method either returns a value or raises; in both cases the object keeps the
  mutations made so far, so a result is the outcome paired with the state.
\<close>

type_synonym 'a result = "(error + 'a) \<times> nes"

definition init :: nes where
  "init = \<lparr>memory = replicate 0x10000 0, pc = 0, sp = 0xFD,
           A = 0, X = 0, Y = 0, P = 0, running = False\<rparr>"

subsection \<open>Indexing a Python list\<close>

text \<open>
  \<open>xs[i]\<close> counts a negative index from the end and raises IndexError outside
  \<open>-len(xs) .. len(xs) - 1\<close>.
\<close>

definition norm_index :: "'a list \<Rightarrow> int \<Rightarrow> nat option" where
  "norm_index xs i =
     (if 0 \<le> i \<and> i < int (length xs) then Some (nat i)
      else if i < 0 \<and> - int (length xs) \<le> i then Some (nat (int (length xs) + i))
      else None)"

definition getitem :: "'a list \<Rightarrow> int \<Rightarrow> error + 'a" where
  "getitem xs i = (case norm_index xs i of None \<Rightarrow> Inl IndexError | Some k \<Rightarrow> Inr (xs ! k))"

definition setitem :: "'a list \<Rightarrow> int \<Rightarrow> 'a \<Rightarrow> error + 'a list" where
  "setitem xs i v = (case norm_index xs i of None \<Rightarrow> Inl IndexError | Some k \<Rightarrow> Inr (xs[k := v]))"

text \<open>The slice \<open>xs[a:b]\<close> for \<open>0 \<le> a \<le> b\<close>; it is cut at the end of the list.\<close>

definition py_slice :: "'a list \<Rightarrow> nat \<Rightarrow> nat \<Rightarrow> 'a list" where
  "py_slice xs a b = take (b - a) (drop a xs)"

subsection \<open>Memory access\<close>

definition read_byte :: "nes \<Rightarrow> int \<Rightarrow> int result" where
  "read_byte s addr = (let addr = addr AND 0xFFFF in (getitem (memory s) addr, s))"

definition write_byte :: "nes \<Rightarrow> int \<Rightarrow> int \<Rightarrow> unit result" where
  "write_byte s addr val =
     (let addr = addr AND 0xFFFF;
          val = val AND 0xFF
      in case setitem (memory s) addr val of
           Inl e \<Rightarrow> (Inl e, s)
         | Inr m \<Rightarrow> (Inr (), s\<lparr>memory := m\<rparr>))"

definition fetch_byte :: "nes \<Rightarrow> int result" where
  "fetch_byte s =
     (let s1 = s\<lparr>pc := pc s AND 0xFFFF\<rparr>
      in case getitem (memory s1) (pc s1) of
           Inl e \<Rightarrow> (Inl e, s1)
         | Inr byte \<Rightarrow> (Inr byte, s1\<lparr>pc := (pc s1 + 1) AND 0xFFFF\<rparr>))"

subsection \<open>Reset\<close>

definition reset :: "nes \<Rightarrow> unit result" where
  "reset s =
     (let s1 = s\<lparr>A := 0, X := 0, Y := 0\<rparr>;
          s2 = s1\<lparr>sp := 0xFD\<rparr>;
          s3 = s2\<lparr>P := 0x04\<rparr>
      in case read_byte s3 0xFFFC of
           (Inl e, s4) \<Rightarrow> (Inl e, s4)
         | (Inr low, s4) \<Rightarrow>
             (case read_byte s4 0xFFFD of
                (Inl e, s5) \<Rightarrow> (Inl e, s5)
              | (Inr high, s5) \<Rightarrow> (Inr (), s5\<lparr>pc := push_bit 8 high OR low\<rparr>)))"

subsection \<open>Loading a cartridge image\<close>

text \<open>
  The loop \<open>for i in range(len(bank)): self.memory[base + i] = bank[i]\<close>, over the
  list of the indices still to be visited.
\<close>

fun copy_bank :: "int \<Rightarrow> byte list \<Rightarrow> nat list \<Rightarrow> nes \<Rightarrow> unit result" where
  "copy_bank base bank [] s = (Inr (), s)"
| "copy_bank base bank (i # js) s =
     (case setitem (memory s) (base + int i) (uint (bank ! i)) of
        Inl e \<Rightarrow> (Inl e, s)
      | Inr m \<Rightarrow> copy_bank base bank js (s\<lparr>memory := m\<rparr>))"

definition magic :: "byte list" where
  "magic = [0x4E, 0x45, 0x53, 0x1A]"

text \<open>
  The file system is a map from paths to contents; a path outside its domain cannot be
  opened. The result \<open>Inr False\<close> is the return value \<open>False\<close>.
\<close>

definition load_rom :: "(string \<rightharpoonup> byte list) \<Rightarrow> nes \<Rightarrow> string \<Rightarrow> bool result" where
  "load_rom fs s path =
     (case fs path of
        None \<Rightarrow> (Inr False, s)
      | Some data \<Rightarrow>
          (if length data < 16 \<or> py_slice data 0 4 \<noteq> magic then (Inr False, s)
          else
            let prg_banks = uint (data ! 4);
                offset = 16;
                prg_size = prg_banks * 16384
            in if int (length data) < int offset + prg_size then (Inr False, s)
               else
                 let bank1 = py_slice data offset (offset + 16384)
                 in (case copy_bank 0x8000 bank1 [0..<length bank1] s of
                      (Inl e, s1) \<Rightarrow> (Inl e, s1)
                    | (Inr u, s1) \<Rightarrow>
                        let upper =
                              (if prg_banks = 1
                               then copy_bank 0xC000 bank1 [0..<length bank1] s1
                               else (let bank2 = py_slice data (offset + 16384) (offset + 32768)
                                     in copy_bank 0xC000 bank2 [0..<length bank2] s1))
                        in (case upper of
                              (Inl e, s2) \<Rightarrow> (Inl e, s2)
                            | (Inr u, s2) \<Rightarrow>
                                (case reset s2 of
                                   (Inl e, s3) \<Rightarrow> (Inl e, s3)
                                 | (Inr u, s3) \<Rightarrow> (Inr True, s3))))))"

subsection \<open>The execution loop\<close>

text \<open>
  \<open>emulator_loop\<close> is the \<open>while self.running\<close> loop inside its \<open>try\<close>; an
  exception of the body is caught, clears \<open>running\<close> and ends the loop. The loop need
  not end, so the function is partial: \<open>None\<close> is a run that never returns. The
  second argument counts the calls of \<open>fetch_byte\<close> made so far; it is an observation
  of the run and no field of the object. The pause \<open>time.sleep\<close> and the log lines
  have no effect on the state.
\<close>

partial_function (option) emulator_loop :: "nes \<Rightarrow> nat \<Rightarrow> (nes \<times> nat) option" where
  "emulator_loop s n =
     (if running s then
        (case fetch_byte s of
           (Inl e, s1) \<Rightarrow> Some (s1\<lparr>running := False\<rparr>, Suc n)
         | (Inr opcode, s1) \<Rightarrow>
             emulator_loop (if opcode = 0x00 then s1\<lparr>running := False\<rparr> else s1) (Suc n))
      else Some (s, n))"

text \<open>
  \<open>emulator_step\<close> is one pass through the body of the loop: the fetch, the test
  of the opcode, and the \<open>except\<close> clause when the fetch raises.
  \<open>emulator_steps k\<close> is the state after at most \<open>k\<close> passes, the loop condition
  being tested before each.
\<close>

definition emulator_step :: "nes \<Rightarrow> nes" where
  "emulator_step s =
     (case fetch_byte s of
        (Inl e, s1) \<Rightarrow> s1\<lparr>running := False\<rparr>
      | (Inr opcode, s1) \<Rightarrow> (if opcode = 0x00 then s1\<lparr>running := False\<rparr> else s1))"

fun emulator_steps :: "nat \<Rightarrow> nes \<Rightarrow> nes" where
  "emulator_steps 0 s = s"
| "emulator_steps (Suc k) s = (if running s then emulator_steps k (emulator_step s) else s)"

subsection \<open>Start, stop and the loop thread\<close>

text \<open>
  \<open>start\<close> runs \<open>emulator_loop\<close> on a new thread and \<open>stop\<close> joins it, so both
  are modelled on a machine that holds the object, the handle \<open>self.thread\<close> and the
  program point of every thread started so far: \<open>Check\<close> is the test of
  \<open>while self.running\<close>, \<open>Body\<close> the fetch and the test of the opcode, \<open>Sleep\<close>
  the call of \<open>time.sleep\<close>, and \<open>Done\<close> a thread that has left the loop. A thread is
  alive until it is \<open>Done\<close>. \<open>thread_step i\<close> lets thread \<open>i\<close> move to its next
  program point. \<open>joining\<close> says that the caller of \<open>stop\<close> is blocked in
  \<open>self.thread.join()\<close>; \<open>join_returns\<close> lets it return once the joined thread is
  \<open>Done\<close>. A blocked caller makes no further call. \<open>run\<close> plays a schedule of calls
  and thread steps.
\<close>

datatype loc = Check | Body | Sleep | Done

record machine =
  nes_obj :: nes
  thread :: "nat option"
  threads :: "loc list"
  joining :: bool

definition machine_init :: machine where
  "machine_init = \<lparr>nes_obj = init, thread = None, threads = [], joining = False\<rparr>"

definition thread_step :: "nat \<Rightarrow> machine \<Rightarrow> machine" where
  "thread_step i m =
     (if i < length (threads m) then
        (case threads m ! i of
           Check \<Rightarrow> m\<lparr>threads := (threads m)[i := (if running (nes_obj m) then Body else Done)]\<rparr>
         | Body \<Rightarrow>
             m\<lparr>nes_obj := emulator_step (nes_obj m),
               threads := (threads m)[i := (case fst (fetch_byte (nes_obj m)) of
                                              Inl e \<Rightarrow> Done | Inr opcode \<Rightarrow> Sleep)]\<rparr>
         | Sleep \<Rightarrow> m\<lparr>threads := (threads m)[i := Check]\<rparr>
         | Done \<Rightarrow> m)
      else m)"

definition start :: "machine \<Rightarrow> machine" where
  "start m =
     (if running (nes_obj m) then m
      else m\<lparr>nes_obj := (nes_obj m)\<lparr>running := True\<rparr>,
             thread := Some (length (threads m)),
             threads := threads m @ [Check]\<rparr>)"

definition stop :: "machine \<Rightarrow> machine" where
  "stop m =
     (if \<not> running (nes_obj m) then m
      else (let m1 = m\<lparr>nes_obj := (nes_obj m)\<lparr>running := False\<rparr>\<rparr>
            in case thread m1 of
                 None \<Rightarrow> m1
               | Some i \<Rightarrow> m1\<lparr>joining := True\<rparr>))"

definition join_returns :: "machine \<Rightarrow> machine" where
  "join_returns m =
     (case thread m of
        None \<Rightarrow> m
      | Some i \<Rightarrow> (if joining m \<and> threads m ! i = Done then m\<lparr>joining := False\<rparr> else m))"

datatype event = CallStart | CallStop | Step nat

definition exec :: "event \<Rightarrow> machine \<Rightarrow> machine" where
  "exec ev m =
     (case ev of
        CallStart \<Rightarrow> (if joining m then m else start m)
      | CallStop \<Rightarrow> (if joining m then m else join_returns (stop m))
      | Step i \<Rightarrow> join_returns (thread_step i m))"

definition run :: "event list \<Rightarrow> machine \<Rightarrow> machine" where
  "run evs m = fold exec evs m"

section \<open>Auxiliary facts\<close>

subsection \<open>Masks\<close>

text \<open>
  On \<open>int\<close>, masking with \<open>0xFFFF\<close> and \<open>0xFF\<close> is the remainder modulo
  \<open>2^16\<close> and \<open>2^8\<close>, also for negative numbers.
\<close>

lemma and_FFFF_mod: "(a::int) AND 0xFFFF = a mod 65536"
proof -
  have "a AND mask 16 = take_bit 16 a" by (simp only: take_bit_eq_mask)
  also have "\<dots> = a mod 2 ^ 16" by (simp only: take_bit_eq_mod)
  finally show ?thesis by (simp add: mask_eq_exp_minus_1)
qed

lemma and_FF_mod: "(a::int) AND 0xFF = a mod 256"
proof -
  have "a AND mask 8 = take_bit 8 a" by (simp only: take_bit_eq_mask)
  also have "\<dots> = a mod 2 ^ 8" by (simp only: take_bit_eq_mod)
  finally show ?thesis by (simp add: mask_eq_exp_minus_1)
qed

subsection \<open>Indexing inside the list\<close>

lemma norm_index_in_range:
  "0 \<le> i \<Longrightarrow> i < int (length xs) \<Longrightarrow> norm_index xs i = Some (nat i)"
  by (simp add: norm_index_def)

lemma getitem_in_range:
  "0 \<le> i \<Longrightarrow> i < int (length xs) \<Longrightarrow> getitem xs i = Inr (xs ! nat i)"
  by (simp add: getitem_def norm_index_in_range)

lemma setitem_in_range:
  "0 \<le> i \<Longrightarrow> i < int (length xs) \<Longrightarrow> setitem xs i v = Inr (xs[nat i := v])"
  by (simp add: setitem_def norm_index_in_range)

lemma length_setitem: "setitem xs i v = Inr ys \<Longrightarrow> length ys = length xs"
  by (auto simp: setitem_def split: option.splits)

lemma set_setitem: "setitem xs i v = Inr ys \<Longrightarrow> set ys \<subseteq> insert v (set xs)"
  by (auto simp: setitem_def split: option.splits dest: set_update_subset_insert [THEN subsetD])

subsection \<open>The methods on a memory of 65536 cells\<close>

text \<open>
  The constructor allocates 65536 cells and no method changes the length of the list.
  On such a memory no access raises, and the methods are the following state updates.
\<close>

lemma read_byte_ok:
  assumes "length (memory s) = 65536"
  shows "read_byte s addr = (Inr (memory s ! nat (addr mod 65536)), s)"
  using assms by (simp add: read_byte_def and_FFFF_mod getitem_in_range)

lemma write_byte_ok:
  assumes "length (memory s) = 65536"
  shows "write_byte s addr v =
           (Inr (), s\<lparr>memory := (memory s)[nat (addr mod 65536) := v mod 256]\<rparr>)"
  using assms by (simp add: write_byte_def and_FFFF_mod and_FF_mod setitem_in_range)

lemma fetch_byte_ok:
  assumes "length (memory s) = 65536"
  shows "fetch_byte s =
           (Inr (memory s ! nat (pc s mod 65536)), s\<lparr>pc := (pc s + 1) mod 65536\<rparr>)"
  using assms by (simp add: fetch_byte_def and_FFFF_mod getitem_in_range mod_simps)

lemma reset_ok:
  assumes "length (memory s) = 65536"
  shows "reset s =
           (Inr (), s\<lparr>A := 0, X := 0, Y := 0, sp := 0xFD, P := 0x04,
                       pc := push_bit 8 (memory s ! 0xFFFD) OR (memory s ! 0xFFFC)\<rparr>)"
  using assms by (simp add: reset_def read_byte_ok)

lemma memory_reset: "memory (snd (reset s)) = memory s"
  by (simp add: reset_def read_byte_def Let_def split: sum.splits)

lemma fetch_byte_memory: "memory (snd (fetch_byte s)) = memory s"
  by (simp add: fetch_byte_def Let_def split: sum.splits)

subsection \<open>The copy loop\<close>

text \<open>
  A run of the copy loop over indices that stay inside the memory is a fold of list
  updates; over \<open>range(len(bank))\<close> it overwrites exactly the cells
  \<open>base .. base + len(bank) - 1\<close> with the bytes of the bank.
\<close>

lemma copy_bank_fold:
  assumes "0 \<le> base" and "\<forall>i\<in>set js. nat base + i < length (memory s)"
  shows "copy_bank base bank js s =
           (Inr (), s\<lparr>memory := fold (\<lambda>i m. m[nat base + i := uint (bank ! i)]) js (memory s)\<rparr>)"
  using assms
proof (induction js arbitrary: s)
  case Nil
  then show ?case by simp
next
  case (Cons i js)
  have idx: "nat (base + int i) = nat base + i"
    using Cons.prems(1) by simp
  have rng: "0 \<le> base + int i" "base + int i < int (length (memory s))"
    using Cons.prems by auto
  have step: "setitem (memory s) (base + int i) (uint (bank ! i))
                = Inr ((memory s)[nat base + i := uint (bank ! i)])"
    using rng by (simp add: setitem_in_range idx)
  have "\<forall>j\<in>set js. nat base + j < length (memory (s\<lparr>memory := (memory s)[nat base + i := uint (bank ! i)]\<rparr>))"
    using Cons.prems(2) by simp
  from Cons.IH [OF Cons.prems(1) this] step show ?case by simp
qed

lemma length_fold_update:
  "length (fold (\<lambda>i m. m[b + i := f i]) js m) = length m"
  by (induction js arbitrary: m) simp_all

lemma nth_fold_update_upt:
  "k < length m \<Longrightarrow>
   fold (\<lambda>i m. m[b + i := f i]) [0..<n] m ! k =
     (if b \<le> k \<and> k < b + n then f (k - b) else m ! k)"
proof (induction n)
  case 0
  then show ?case by auto
next
  case (Suc n)
  let ?m = "fold (\<lambda>i m. m[b + i := f i]) [0..<n] m"
  have "fold (\<lambda>i m. m[b + i := f i]) [0..<Suc n] m = ?m[b + n := f n]"
    by simp
  moreover have "k < length ?m"
    using Suc.prems by (simp add: length_fold_update)
  ultimately show ?case
  proof (cases "k = b + n")
    case True
    with \<open>k < length ?m\<close> \<open>fold (\<lambda>i m. m[b + i := f i]) [0..<Suc n] m = ?m[b + n := f n]\<close>
    show ?thesis by simp
  next
    case False
    with Suc \<open>fold (\<lambda>i m. m[b + i := f i]) [0..<Suc n] m = ?m[b + n := f n]\<close>
    show ?thesis by (simp only: nth_list_update_neq [OF not_sym [OF False]]) auto
  qed
qed

lemma copy_bank_upt:
  assumes "0 \<le> base" and "nat base + length bank \<le> length (memory s)"
  shows "\<exists>m. copy_bank base bank [0..<length bank] s = (Inr (), s\<lparr>memory := m\<rparr>)
           \<and> length m = length (memory s)
           \<and> (\<forall>k<length m. m ! k = (if nat base \<le> k \<and> k < nat base + length bank
                                       then uint (bank ! (k - nat base)) else memory s ! k))"
proof -
  let ?m = "fold (\<lambda>i m. m[nat base + i := uint (bank ! i)]) [0..<length bank] (memory s)"
  have "\<forall>i\<in>set [0..<length bank]. nat base + i < length (memory s)"
    using assms(2) by auto
  from copy_bank_fold [OF assms(1) this]
  have "copy_bank base bank [0..<length bank] s = (Inr (), s\<lparr>memory := ?m\<rparr>)" .
  moreover have "length ?m = length (memory s)"
    by (rule length_fold_update)
  moreover have "\<forall>k<length ?m. ?m ! k = (if nat base \<le> k \<and> k < nat base + length bank
                                       then uint (bank ! (k - nat base)) else memory s ! k)"
    by (simp add: length_fold_update nth_fold_update_upt)
  ultimately show ?thesis by blast
qed

lemma py_slice_eq_mapI:
  assumes "b \<le> length m" and "a \<le> b" and "length ys = b - a"
    and "\<And>i. i < b - a \<Longrightarrow> m ! (a + i) = g (ys ! i)"
  shows "py_slice m a b = map g ys"
proof (rule nth_equalityI)
  show "length (py_slice m a b) = length (map g ys)"
    using assms by (simp add: py_slice_def)
next
  fix i assume "i < length (py_slice m a b)"
  then have "i < b - a" using assms by (simp add: py_slice_def)
  then show "py_slice m a b ! i = map g ys ! i"
    using assms by (simp add: py_slice_def)
qed

lemma copy_two_banks:
  assumes mem: "length (memory s) = 65536"
    and l1: "length b1 = 16384" and l2: "length b2 = 16384"
  obtains m1 m2 where
    "copy_bank 0x8000 b1 [0..<length b1] s = (Inr (), s\<lparr>memory := m1\<rparr>)"
    "copy_bank 0xC000 b2 [0..<length b2] (s\<lparr>memory := m1\<rparr>) = (Inr (), s\<lparr>memory := m2\<rparr>)"
    "length m2 = 65536"
    "py_slice m2 0x8000 0xC000 = map uint b1"
    "py_slice m2 0xC000 0x10000 = map uint b2"
proof -
  have "nat 0x8000 + length b1 \<le> length (memory s)"
    using mem l1 by simp
  from copy_bank_upt [OF _ this] obtain m1 where
    c1: "copy_bank 0x8000 b1 [0..<length b1] s = (Inr (), s\<lparr>memory := m1\<rparr>)"
    and len1: "length m1 = 65536"
    and n1: "\<And>k. k < 65536 \<Longrightarrow> m1 ! k =
               (if 32768 \<le> k \<and> k < 49152 then uint (b1 ! (k - 32768)) else memory s ! k)"
    using mem l1 by auto
  have "nat 0xC000 + length b2 \<le> length (memory (s\<lparr>memory := m1\<rparr>))"
    using len1 l2 by simp
  from copy_bank_upt [OF _ this] obtain m2 where
    c2: "copy_bank 0xC000 b2 [0..<length b2] (s\<lparr>memory := m1\<rparr>) = (Inr (), s\<lparr>memory := m2\<rparr>)"
    and len2: "length m2 = 65536"
    and n2: "\<And>k. k < 65536 \<Longrightarrow> m2 ! k =
               (if 49152 \<le> k \<and> k < 65536 then uint (b2 ! (k - 49152)) else m1 ! k)"
    using len1 l2 by auto
  have lo: "py_slice m2 0x8000 0xC000 = map uint b1"
  proof (rule py_slice_eq_mapI)
    fix i :: nat assume "i < 0xC000 - 0x8000"
    then show "m2 ! (0x8000 + i) = uint (b1 ! i)"
      using n2 [of "0x8000 + i"] n1 [of "0x8000 + i"] by simp
  qed (use len2 l1 in simp_all)
  have hi: "py_slice m2 0xC000 0x10000 = map uint b2"
  proof (rule py_slice_eq_mapI)
    fix i :: nat assume "i < 0x10000 - 0xC000"
    then show "m2 ! (0xC000 + i) = uint (b2 ! i)"
      using n2 [of "0xC000 + i"] by simp
  qed (use len2 l2 in simp_all)
  from that [OF c1 c2 len2 lo hi] show thesis .
qed

text \<open>
  Past the three checks of the header, \<open>load_rom\<close> is the two copies followed by
  \<open>reset\<close>.
\<close>

lemma load_rom_accepts:
  assumes fl: "fs path = Some data"
    and len: "16 \<le> length data" and mg: "py_slice data 0 4 = magic"
    and enough: "16 + uint (data ! 4) * 16384 \<le> int (length data)"
  shows "load_rom fs s path =
     (let bank1 = py_slice data 16 (16 + 16384)
      in (case copy_bank 0x8000 bank1 [0..<length bank1] s of
            (Inl e, s1) \<Rightarrow> (Inl e, s1)
          | (Inr u, s1) \<Rightarrow>
              let upper =
                    (if uint (data ! 4) = 1
                     then copy_bank 0xC000 bank1 [0..<length bank1] s1
                     else (let bank2 = py_slice data (16 + 16384) (16 + 32768)
                           in copy_bank 0xC000 bank2 [0..<length bank2] s1))
              in (case upper of
                    (Inl e, s2) \<Rightarrow> (Inl e, s2)
                  | (Inr u, s2) \<Rightarrow>
                      (case reset s2 of
                         (Inl e, s3) \<Rightarrow> (Inl e, s3)
                       | (Inr u, s3) \<Rightarrow> (Inr True, s3)))))"
  using assms by (simp add: load_rom_def Let_def)

subsection \<open>The program counter\<close>

lemma fetch_byte_pc_range:
  "0 \<le> pc (snd (fetch_byte s)) \<and> pc (snd (fetch_byte s)) \<le> 65535"
proof -
  have "0 \<le> a mod 65536 \<and> a mod 65536 \<le> 65535" for a :: int
    by simp
  then show ?thesis
    by (simp add: fetch_byte_def Let_def and_FFFF_mod split: sum.splits)
qed

lemma reset_vector_range:
  assumes "0 \<le> low" "low \<le> 255" "0 \<le> high" "high \<le> 255"
  shows "0 \<le> push_bit 8 high OR low \<and> push_bit 8 high OR (low::int) \<le> 65535"
proof -
  have "push_bit 8 high = high * 256"
    by (simp add: push_bit_eq_mult)
  then have h: "0 \<le> push_bit 8 high" "push_bit 8 high < 2 ^ 16"
    using assms by simp_all
  have "low < 2 ^ 16"
    using assms by simp
  from OR_upper [OF h this] have "push_bit 8 high OR low < 2 ^ 16" .
  moreover have "0 \<le> push_bit 8 high OR low"
    using h(1) assms(1) by simp
  ultimately show ?thesis by simp
qed

lemma emulator_loop_brk:
  assumes mem: "length (memory s) = 65536"
    and run: "running s"
    and brk: "memory s ! nat (pc s AND 0xFFFF) = 0x00"
  shows "emulator_loop s n = Some (s\<lparr>pc := (pc s + 1) mod 65536, running := False\<rparr>, Suc n)"
proof -
  have f: "fetch_byte s = (Inr 0, s\<lparr>pc := (pc s + 1) mod 65536\<rparr>)"
    using fetch_byte_ok [OF mem] brk by (simp add: and_FFFF_mod)
  have "emulator_loop s n = emulator_loop (s\<lparr>pc := (pc s + 1) mod 65536, running := False\<rparr>) (Suc n)"
    by (subst emulator_loop.simps) (simp add: run f)
  also have "\<dots> = Some (s\<lparr>pc := (pc s + 1) mod 65536, running := False\<rparr>, Suc n)"
    by (subst emulator_loop.simps) simp
  finally show ?thesis .
qed

lemma emulator_loop_pc_range:
  assumes "emulator_loop s n = Some r"
  shows "running s \<or> (0 \<le> pc s \<and> pc s \<le> 65535) \<longrightarrow> 0 \<le> pc (fst r) \<and> pc (fst r) \<le> 65535"
proof (rule emulator_loop.raw_induct
    [where P = "\<lambda>s n r. running s \<or> (0 \<le> pc s \<and> pc s \<le> 65535)
                    \<longrightarrow> 0 \<le> pc (fst r) \<and> pc (fst r) \<le> 65535", OF _ assms])
  fix loop :: "nes \<Rightarrow> nat \<Rightarrow> (nes \<times> nat) option" and s n r
  assume IH: "\<And>s n r. loop s n = Some r \<Longrightarrow>
                running s \<or> (0 \<le> pc s \<and> pc s \<le> 65535) \<longrightarrow> 0 \<le> pc (fst r) \<and> pc (fst r) \<le> 65535"
    and body: "(if running s then
                  (case fetch_byte s of
                     (Inl e, s1) \<Rightarrow> Some (s1\<lparr>running := False\<rparr>, Suc n)
                   | (Inr opcode, s1) \<Rightarrow>
                       loop (if opcode = 0x00 then s1\<lparr>running := False\<rparr> else s1) (Suc n))
                else Some (s, n)) = Some r"
  show "running s \<or> (0 \<le> pc s \<and> pc s \<le> 65535) \<longrightarrow> 0 \<le> pc (fst r) \<and> pc (fst r) \<le> 65535"
  proof (cases "running s")
    case False
    with body show ?thesis by auto
  next
    case True
    note f = fetch_byte_pc_range [of s]
    obtain x s1 where fb: "fetch_byte s = (x, s1)"
      by (cases "fetch_byte s")
    show ?thesis
    proof (cases x)
      case (Inl e)
      with body True fb f show ?thesis by auto
    next
      case (Inr opcode)
      let ?s2 = "if opcode = 0x00 then s1\<lparr>running := False\<rparr> else s1"
      have "loop ?s2 (Suc n) = Some r"
        using body True fb Inr by simp
      from IH [OF this] have "running ?s2 \<or> (0 \<le> pc ?s2 \<and> pc ?s2 \<le> 65535)
              \<longrightarrow> 0 \<le> pc (fst r) \<and> pc (fst r) \<le> 65535" .
      moreover have "0 \<le> pc ?s2 \<and> pc ?s2 \<le> 65535"
        using f fb by simp
      ultimately show ?thesis by blast
    qed
  qed
qed

text \<open>
  Every pass of the loop is \<open>emulator_step\<close>, and PC is in range after each of them,
  whether or not the loop ever ends.
\<close>

lemma pc_emulator_step: "pc (emulator_step s) = pc (snd (fetch_byte s))"
  by (simp add: emulator_step_def split: prod.splits sum.splits)

lemma emulator_step_pc_range:
  "0 \<le> pc (emulator_step s) \<and> pc (emulator_step s) \<le> 65535"
  unfolding pc_emulator_step by (rule fetch_byte_pc_range)

lemma emulator_loop_unfold:
  "emulator_loop s n =
     (if running s then emulator_loop (emulator_step s) (Suc n) else Some (s, n))"
proof (cases "running s")
  case False
  then show ?thesis by (subst emulator_loop.simps) simp
next
  case True
  obtain x s1 where fb: "fetch_byte s = (x, s1)"
    by (cases "fetch_byte s")
  show ?thesis
  proof (cases x)
    case (Inl e)
    have "emulator_loop s n = Some (s1\<lparr>running := False\<rparr>, Suc n)"
      by (subst emulator_loop.simps) (simp add: True fb Inl)
    moreover have "emulator_loop (s1\<lparr>running := False\<rparr>) (Suc n) = Some (s1\<lparr>running := False\<rparr>, Suc n)"
      by (subst emulator_loop.simps) simp
    moreover have "emulator_step s = s1\<lparr>running := False\<rparr>"
      by (simp add: emulator_step_def fb Inl)
    ultimately show ?thesis
      using True by simp
  next
    case (Inr opcode)
    have "emulator_loop s n
            = emulator_loop (if opcode = 0x00 then s1\<lparr>running := False\<rparr> else s1) (Suc n)"
      by (subst emulator_loop.simps) (simp add: True fb Inr)
    moreover have "emulator_step s = (if opcode = 0x00 then s1\<lparr>running := False\<rparr> else s1)"
      by (simp add: emulator_step_def fb Inr)
    ultimately show ?thesis
      using True by simp
  qed
qed

lemma emulator_steps_pc_range:
  "(0 < k \<and> running s) \<or> (0 \<le> pc s \<and> pc s \<le> 65535)
     \<Longrightarrow> 0 \<le> pc (emulator_steps k s) \<and> pc (emulator_steps k s) \<le> 65535"
proof (induction k arbitrary: s)
  case 0
  then show ?case by simp
next
  case (Suc k)
  show ?case
  proof (cases "running s")
    case False
    with Suc.prems show ?thesis by simp
  next
    case True
    have "0 \<le> pc (emulator_steps k (emulator_step s))
            \<and> pc (emulator_steps k (emulator_step s)) \<le> 65535"
      using emulator_step_pc_range [of s] by (intro Suc.IH) blast
    with True show ?thesis by simp
  qed
qed

lemma fetch_byte_zero:
  assumes "memory s = replicate 0x10000 0" and "0 \<le> pc s" and "pc s < 65535"
  shows "fetch_byte s = (Inr 0, s\<lparr>pc := pc s + 1\<rparr>)"
proof -
  have len: "length (memory s) = 65536"
    using assms(1) by simp
  have "nat (pc s mod 65536) < 65536"
    using assms(2,3) by simp
  then have "memory s ! nat (pc s mod 65536) = 0"
    using assms(1) by simp
  moreover have "(pc s + 1) mod 65536 = pc s + 1"
    using assms(2,3) by simp
  ultimately show ?thesis
    using fetch_byte_ok [OF len] by simp
qed

lemma emulator_step_zero:
  assumes "memory s = replicate 0x10000 0" and "0 \<le> pc s" and "pc s < 65535"
  shows "emulator_step s = s\<lparr>pc := pc s + 1, running := False\<rparr>"
  using fetch_byte_zero [OF assms] by (simp add: emulator_step_def)

subsection \<open>The memory keeps its length and holds bytes\<close>

text \<open>
  The hypotheses of the theorems below, a memory of 65536 cells that each hold a value
  in \<open>0 .. 255\<close>, hold in the initial state and are kept by every method that
  writes memory.
\<close>

lemma init_memory:
  "length (memory init) = 65536 \<and> (\<forall>v\<in>set (memory init). 0 \<le> v \<and> v \<le> 255)"
  by (simp add: init_def)

lemma write_byte_memory:
  "length (memory (snd (write_byte s a v))) = length (memory s)
   \<and> set (memory (snd (write_byte s a v))) \<subseteq> insert (v AND 0xFF) (set (memory s))"
  by (auto simp: write_byte_def Let_def split: sum.splits
           dest: length_setitem set_setitem [THEN subsetD])

lemma write_byte_cells:
  assumes "\<forall>c\<in>set (memory s). 0 \<le> c \<and> c \<le> 255"
  shows "\<forall>c\<in>set (memory (snd (write_byte s a v))). 0 \<le> c \<and> c \<le> 255"
proof -
  have "0 \<le> v mod 256 \<and> v mod 256 \<le> 255"
    by simp
  then have "0 \<le> v AND 0xFF \<and> v AND 0xFF \<le> 255"
    by (simp only: and_FF_mod)
  with assms write_byte_memory [of s a v] show ?thesis
    by blast
qed

lemma uint_byte_range: "0 \<le> uint (b :: byte) \<and> uint b \<le> 255"
proof -
  have "uint b < 2 ^ 8"
    using uint_lt2p [of b] by simp
  then show ?thesis by simp
qed

lemma copy_bank_length:
  "length (memory (snd (copy_bank base bank js s))) = length (memory s)"
proof (induction js arbitrary: s)
  case Nil
  show ?case by simp
next
  case (Cons i js)
  show ?case
  proof (cases "setitem (memory s) (base + int i) (uint (bank ! i))")
    case (Inl e)
    then show ?thesis by simp
  next
    case (Inr m)
    with Cons [of "s\<lparr>memory := m\<rparr>"] length_setitem [OF Inr] show ?thesis by simp
  qed
qed

lemma copy_bank_cells:
  assumes "\<forall>c\<in>set (memory s). 0 \<le> c \<and> c \<le> 255"
  shows "\<forall>c\<in>set (memory (snd (copy_bank base bank js s))). 0 \<le> c \<and> c \<le> 255"
  using assms
proof (induction js arbitrary: s)
  case Nil
  then show ?case by simp
next
  case (Cons i js)
  show ?case
  proof (cases "setitem (memory s) (base + int i) (uint (bank ! i))")
    case (Inl e)
    with Cons.prems show ?thesis by simp
  next
    case (Inr m)
    have "\<forall>c\<in>set (memory (s\<lparr>memory := m\<rparr>)). 0 \<le> c \<and> c \<le> 255"
      using set_setitem [OF Inr] Cons.prems uint_byte_range [of "bank ! i"] by auto
    from Cons.IH [OF this] Inr show ?thesis by simp
  qed
qed

lemma load_rom_memory_invariant:
  assumes "length (memory s) = 65536" and "\<forall>c\<in>set (memory s). 0 \<le> c \<and> c \<le> 255"
  shows "length (memory (snd (load_rom fs s path))) = 65536
       \<and> (\<forall>c\<in>set (memory (snd (load_rom fs s path))). 0 \<le> c \<and> c \<le> 255)"
proof -
  define I where "I t \<longleftrightarrow> length (memory t) = 65536 \<and> (\<forall>c\<in>set (memory t). 0 \<le> c \<and> c \<le> 255)"
    for t :: nes
  have start: "I s"
    using assms by (simp add: I_def)
  have cp: "I t'" if c: "copy_bank base bank js t = (x, t')" and i: "I t" for base bank js t x t'
  proof -
    have t': "t' = snd (copy_bank base bank js t)"
      by (simp only: c snd_conv)
    from i have cells: "\<forall>c\<in>set (memory t). 0 \<le> c \<and> c \<le> 255"
      unfolding I_def by (rule conjunct2)
    from i have len: "length (memory t) = 65536"
      unfolding I_def by (rule conjunct1)
    have "length (memory t') = length (memory t)"
      unfolding t' by (rule copy_bank_length)
    then have "length (memory t') = 65536"
      by (simp only: len)
    moreover have "\<forall>c\<in>set (memory t'). 0 \<le> c \<and> c \<le> 255"
      unfolding t' using cells by (rule copy_bank_cells)
    ultimately show ?thesis
      unfolding I_def by (rule conjI)
  qed
  have rs: "I t'" if c: "reset t = (x, t')" and i: "I t" for t x t'
  proof -
    have "memory t' = memory (snd (reset t))"
      by (simp only: c snd_conv)
    then have e: "memory t' = memory t"
      by (simp only: memory_reset)
    from i show ?thesis
      unfolding I_def e .
  qed
  have tail: "I (snd (case r of
                       (Inl e, s2) \<Rightarrow> (Inl e, s2)
                     | (Inr u, s2) \<Rightarrow>
                         (case reset s2 of
                            (Inl e, s3) \<Rightarrow> (Inl e, s3)
                          | (Inr u, s3) \<Rightarrow> (Inr True, s3))))"
    if "I (snd r)" for r :: "unit result"
    using that by (auto split: prod.splits sum.splits intro: rs)
  have "I (snd (load_rom fs s path))"
  proof (cases "fs path")
    case None
    with start show ?thesis by (simp add: load_rom_def)
  next
    case (Some data)
    show ?thesis
    proof (cases "16 \<le> length data \<and> py_slice data 0 4 = magic
                  \<and> 16 + uint (data ! 4) * 16384 \<le> int (length data)")
      case False
      then have "load_rom fs s path = (Inr False, s)"
        using Some by (auto simp: load_rom_def Let_def)
      with start show ?thesis by simp
    next
      case True
      let ?b1 = "py_slice data 16 (16 + 16384)"
      let ?b2 = "py_slice data (16 + 16384) (16 + 32768)"
      obtain x1 s1 where c1: "copy_bank 0x8000 ?b1 [0..<length ?b1] s = (x1, s1)"
        by (cases "copy_bank 0x8000 ?b1 [0..<length ?b1] s")
      have i1: "I s1"
        using cp [OF c1 start] .
      let ?upper = "if uint (data ! 4) = 1 then copy_bank 0xC000 ?b1 [0..<length ?b1] s1
                    else copy_bank 0xC000 ?b2 [0..<length ?b2] s1"
      have "I (snd (copy_bank base bank js s1))" for base bank js
        using cp [OF prod.collapse [symmetric] i1] .
      then have "I (snd ?upper)"
        by (cases "uint (data ! 4) = 1") (simp_all only: simp_thms if_True if_False)
      note i3 = tail [OF this]
      from True have a: "16 \<le> length data" "py_slice data 0 4 = magic"
        "16 + uint (data ! 4) * 16384 \<le> int (length data)"
        by blast+
      note acc = load_rom_accepts [of fs path data s, OF Some a, unfolded Let_def]
      show ?thesis
      proof (cases x1)
        case (Inl e)
        from acc c1 Inl have "load_rom fs s path = (Inl e, s1)"
          by (simp only: prod.case sum.case)
        with i1 show ?thesis by simp
      next
        case (Inr u)
        from acc c1 Inr show ?thesis
          by (simp only: prod.case sum.case i3)
      qed
    qed
  qed
  then show ?thesis
    by (simp add: I_def)
qed

section \<open>Memory access and registers\<close>

text \<open>
  C3: for every integer address \<open>a\<close> (also beyond 65535) and every integer value
  \<open>v\<close>, \<open>write_byte\<close> followed by \<open>read_byte\<close> at \<open>a\<close> returns \<open>v & 0xFF\<close>;
  both methods mask the address to 16 bits, the write masks the value to 8 bits, and
  neither raises.
\<close>

theorem write_then_read:
  assumes "length (memory s) = 65536"
  shows "fst (write_byte s a v) = Inr ()
       \<and> snd (write_byte s a v) = s\<lparr>memory := (memory s)[nat (a AND 0xFFFF) := v AND 0xFF]\<rparr>
       \<and> read_byte s a = (Inr (memory s ! nat (a AND 0xFFFF)), s)
       \<and> read_byte (snd (write_byte s a v)) a = (Inr (v AND 0xFF), snd (write_byte s a v))"
proof -
  have r: "0 \<le> a mod 65536" "a mod 65536 < 65536"
    by simp_all
  then have "nat (a mod 65536) < length (memory s)"
    using assms by simp
  then show ?thesis
    using assms by (simp add: write_byte_ok read_byte_ok and_FFFF_mod and_FF_mod)
qed

theorem write_then_read_witness:
  "length (memory init) = 65536
   \<and> fst (write_byte init 0x12345 (-1)) = Inr ()
   \<and> read_byte (snd (write_byte init 0x12345 (-1))) 0x12345
        = (Inr 0xFF, snd (write_byte init 0x12345 (-1)))"
proof -
  have h: "length (memory init) = 65536"
    by (simp add: init_def)
  have e: "(-1::int) AND 0xFF = 0xFF"
    by (simp add: and_FF_mod)
  note t = write_then_read [OF h, of "0x12345" "-1"]
  from t have w: "fst (write_byte init 0x12345 (-1)) = Inr ()"
    by blast
  from t have "read_byte (snd (write_byte init 0x12345 (-1))) 0x12345
                 = (Inr ((-1) AND 0xFF), snd (write_byte init 0x12345 (-1)))"
    by blast
  then have "read_byte (snd (write_byte init 0x12345 (-1))) 0x12345
                 = (Inr 0xFF, snd (write_byte init 0x12345 (-1)))"
    by (simp only: e)
  with h w show ?thesis
    by blast
qed

text \<open>
  C4: \<open>fetch_byte\<close> returns the cell at the current PC and then adds 1 to PC with
  16-bit wrap-around (\<open>0xFFFF\<close> becomes \<open>0\<close>); memory and the registers A, X, Y, P
  and SP stay as they were. The address read is PC masked to 16 bits, which is PC itself
  when PC is in \<open>0 .. 65535\<close>.
\<close>

theorem fetch_byte_advances:
  assumes "length (memory s) = 65536"
  shows "fetch_byte s = (Inr (memory s ! nat (pc s AND 0xFFFF)), s\<lparr>pc := (pc s + 1) mod 65536\<rparr>)
       \<and> (0 \<le> pc s \<and> pc s < 65536 \<longrightarrow> pc s AND 0xFFFF = pc s)
       \<and> (pc s = 0xFFFF \<longrightarrow> pc (snd (fetch_byte s)) = 0)"
  using assms by (simp add: fetch_byte_ok and_FFFF_mod)

theorem fetch_byte_advances_witness:
  "length (memory (init\<lparr>pc := 0xFFFF\<rparr>)) = 65536
   \<and> fetch_byte (init\<lparr>pc := 0xFFFF\<rparr>) = (Inr 0, init\<lparr>pc := 0\<rparr>)
   \<and> (0::int) \<le> 0xFFFF \<and> (0xFFFF::int) < 65536 \<and> (0xFFFF::int) AND 0xFFFF = 0xFFFF"
proof -
  have h: "length (memory (init\<lparr>pc := 0xFFFF\<rparr>)) = 65536"
    by (simp add: init_def)
  have "memory (init\<lparr>pc := 0xFFFF\<rparr>) ! nat (0xFFFF AND 0xFFFF) = 0"
    by (simp add: init_def and_FFFF_mod)
  with fetch_byte_advances [OF h] h show ?thesis
    by simp
qed

text \<open>
  C2: \<open>reset\<close> sets A = X = Y = 0, SP = \<open>0xFD\<close>, P = \<open>0x04\<close> and then
  PC = \<open>(mem[0xFFFD] << 8) | mem[0xFFFC]\<close>; with \<open>mem[0xFFFC] = 0x00\<close> and
  \<open>mem[0xFFFD] = 0x90\<close> the new PC is \<open>0x9000\<close>.
\<close>

theorem reset_registers:
  assumes "length (memory s) = 65536"
  shows "reset s = (Inr (), s\<lparr>A := 0, X := 0, Y := 0, sp := 0xFD, P := 0x04,
                       pc := push_bit 8 (memory s ! 0xFFFD) OR (memory s ! 0xFFFC)\<rparr>)
       \<and> (memory s ! 0xFFFC = 0x00 \<and> memory s ! 0xFFFD = 0x90 \<longrightarrow> pc (snd (reset s)) = 0x9000)"
  using assms by (simp add: reset_ok)

theorem reset_registers_witness:
  "length (memory (init\<lparr>memory := (memory init)[0xFFFD := 0x90]\<rparr>)) = 65536
   \<and> memory (init\<lparr>memory := (memory init)[0xFFFD := 0x90]\<rparr>) ! 0xFFFC = 0x00
   \<and> memory (init\<lparr>memory := (memory init)[0xFFFD := 0x90]\<rparr>) ! 0xFFFD = 0x90
   \<and> pc (snd (reset (init\<lparr>memory := (memory init)[0xFFFD := 0x90]\<rparr>))) = 0x9000"
proof -
  let ?s = "init\<lparr>memory := (memory init)[0xFFFD := 0x90]\<rparr>"
  have h: "length (memory ?s) = 65536"
    by (simp add: init_def)
  have v: "memory ?s ! 0xFFFC = 0x00" "memory ?s ! 0xFFFD = 0x90"
    by (simp_all add: init_def)
  from reset_registers [OF h] h v show ?thesis
    by simp
qed

text \<open>
  C8: when every memory cell holds a value in \<open>0 .. 255\<close>, PC is in
  \<open>0 .. 65535\<close> after \<open>reset\<close> and after \<open>fetch_byte\<close>. Every pass of the
  execution loop is \<open>emulator_step\<close>, PC is in range after every such step from any
  state, hence after any number of passes whether or not the loop ends, and in the final
  state of every run that returns.
\<close>

theorem pc_in_range:
  assumes mem: "length (memory s) = 65536"
    and cells: "\<forall>v\<in>set (memory s). 0 \<le> v \<and> v \<le> 255"
  shows "(0 \<le> pc (snd (reset s)) \<and> pc (snd (reset s)) \<le> 65535)
       \<and> (0 \<le> pc (snd (fetch_byte s)) \<and> pc (snd (fetch_byte s)) \<le> 65535)
       \<and> (\<forall>t n. emulator_loop t n =
              (if running t then emulator_loop (emulator_step t) (Suc n) else Some (t, n)))
       \<and> (\<forall>t. 0 \<le> pc (emulator_step t) \<and> pc (emulator_step t) \<le> 65535)
       \<and> (\<forall>k. (0 < k \<and> running s) \<or> (0 \<le> pc s \<and> pc s \<le> 65535) \<longrightarrow>
              0 \<le> pc (emulator_steps k s) \<and> pc (emulator_steps k s) \<le> 65535)
       \<and> (\<forall>n s' n'. running s \<longrightarrow> emulator_loop s n = Some (s', n')
              \<longrightarrow> 0 \<le> pc s' \<and> pc s' \<le> 65535)"
proof -
  have lo: "0 \<le> memory s ! 0xFFFC \<and> memory s ! 0xFFFC \<le> 255"
    and hi: "0 \<le> memory s ! 0xFFFD \<and> memory s ! 0xFFFD \<le> 255"
    using mem cells by (simp_all add: all_set_conv_all_nth)
  have "0 \<le> pc (snd (reset s)) \<and> pc (snd (reset s)) \<le> 65535"
    using reset_vector_range [of "memory s ! 0xFFFC" "memory s ! 0xFFFD"] lo hi
    by (simp add: reset_ok [OF mem])
  moreover note fetch_byte_pc_range [of s]
  moreover have "\<forall>t n. emulator_loop t n =
              (if running t then emulator_loop (emulator_step t) (Suc n) else Some (t, n))"
    using emulator_loop_unfold by blast
  moreover have "\<forall>t. 0 \<le> pc (emulator_step t) \<and> pc (emulator_step t) \<le> 65535"
    using emulator_step_pc_range by blast
  moreover have "\<forall>k. (0 < k \<and> running s) \<or> (0 \<le> pc s \<and> pc s \<le> 65535) \<longrightarrow>
              0 \<le> pc (emulator_steps k s) \<and> pc (emulator_steps k s) \<le> 65535"
    using emulator_steps_pc_range by blast
  moreover have "\<forall>n s' n'. running s \<longrightarrow> emulator_loop s n = Some (s', n')
              \<longrightarrow> 0 \<le> pc s' \<and> pc s' \<le> 65535"
    using emulator_loop_pc_range by fastforce
  ultimately show ?thesis by blast
qed

theorem pc_in_range_witness:
  "length (memory (init\<lparr>running := True\<rparr>)) = 65536
   \<and> set (memory (init\<lparr>running := True\<rparr>)) = {0}
   \<and> running (init\<lparr>running := True\<rparr>)
   \<and> (0::nat) < 1
   \<and> emulator_steps 1 (init\<lparr>running := True\<rparr>) = init\<lparr>pc := 1\<rparr>
   \<and> 0 \<le> pc (emulator_steps 1 (init\<lparr>running := True\<rparr>))
   \<and> pc (emulator_steps 1 (init\<lparr>running := True\<rparr>)) \<le> 65535
   \<and> emulator_loop (init\<lparr>running := True\<rparr>) 0 = Some (init\<lparr>pc := 1\<rparr>, 1)
   \<and> 0 \<le> pc (init\<lparr>pc := 1\<rparr>) \<and> pc (init\<lparr>pc := 1\<rparr>) \<le> 65535
   \<and> 0 \<le> pc (snd (reset (init\<lparr>running := True\<rparr>)))
   \<and> pc (snd (reset (init\<lparr>running := True\<rparr>))) \<le> 65535
   \<and> 0 \<le> pc (snd (fetch_byte (init\<lparr>running := True\<rparr>)))
   \<and> pc (snd (fetch_byte (init\<lparr>running := True\<rparr>))) \<le> 65535"
proof -
  let ?s = "init\<lparr>running := True\<rparr>"
  have mem: "length (memory ?s) = 65536"
    by (simp add: init_def)
  have zeros: "set (memory ?s) = {0}"
    by (simp add: init_def)
  then have cells: "\<forall>v\<in>set (memory ?s). 0 \<le> v \<and> v \<le> 255"
    by simp
  have run: "running ?s"
    by simp
  have k: "(0::nat) < 1"
    by simp
  have "memory ?s ! nat (pc ?s AND 0xFFFF) = 0x00"
    by (simp add: init_def)
  from emulator_loop_brk [OF mem run this, of 0]
  have loop: "emulator_loop ?s 0 = Some (init\<lparr>pc := 1\<rparr>, 1)"
    by (simp add: init_def)
  have "emulator_step ?s = init\<lparr>pc := 1\<rparr>"
    using emulator_step_zero [of ?s] by (simp add: init_def)
  then have steps: "emulator_steps 1 ?s = init\<lparr>pc := 1\<rparr>"
    by simp
  note t = pc_in_range [OF mem cells]
  from t run loop have a: "0 \<le> pc (init\<lparr>pc := 1\<rparr>) \<and> pc (init\<lparr>pc := 1\<rparr>) \<le> 65535"
    by blast
  from t run k have b: "0 \<le> pc (emulator_steps 1 ?s) \<and> pc (emulator_steps 1 ?s) \<le> 65535"
    by blast
  from t have c: "0 \<le> pc (snd (reset ?s)) \<and> pc (snd (reset ?s)) \<le> 65535"
    and d: "0 \<le> pc (snd (fetch_byte ?s)) \<and> pc (snd (fetch_byte ?s)) \<le> 65535"
    by blast+
  from mem zeros run k steps loop a b c d show ?thesis
    by blast
qed

section \<open>The cartridge loader\<close>

text \<open>
  C1: for a file with the magic bytes, bank count 1 and at least \<open>16 + 16384\<close>
  bytes, \<open>load_rom\<close> returns \<open>True\<close> and both windows \<open>0x8000 .. 0xBFFF\<close> and
  \<open>0xC000 .. 0xFFFF\<close> of the memory hold the bank \<open>data[16 : 16 + 16384]\<close>.
\<close>

theorem load_rom_single_bank:
  assumes fl: "fs path = Some data"
    and mem: "length (memory s) = 65536"
    and mg: "py_slice data 0 4 = magic"
    and banks: "data ! 4 = 1"
    and len: "16 + 16384 \<le> length data"
  shows "fst (load_rom fs s path) = Inr True
       \<and> py_slice (memory (snd (load_rom fs s path))) 0x8000 0xC000
            = map uint (py_slice data 16 (16 + 16384))
       \<and> py_slice (memory (snd (load_rom fs s path))) 0xC000 0x10000
            = map uint (py_slice data 16 (16 + 16384))"
proof -
  let ?B = "py_slice data 16 (16 + 16384)"
  have lenB: "length ?B = 16384"
    using len by (simp add: py_slice_def)
  from copy_two_banks [OF mem lenB lenB] obtain m1 m2 where
    c1: "copy_bank 0x8000 ?B [0..<length ?B] s = (Inr (), s\<lparr>memory := m1\<rparr>)"
    and c2: "copy_bank 0xC000 ?B [0..<length ?B] (s\<lparr>memory := m1\<rparr>) = (Inr (), s\<lparr>memory := m2\<rparr>)"
    and l2: "length m2 = 65536"
    and lo: "py_slice m2 0x8000 0xC000 = map uint ?B"
    and hi: "py_slice m2 0xC000 0x10000 = map uint ?B"
    by blast
  obtain s3 where r: "reset (s\<lparr>memory := m2\<rparr>) = (Inr (), s3)" and m3: "memory s3 = m2"
    using reset_ok [of "s\<lparr>memory := m2\<rparr>"] l2 by simp
  have l16: "16 \<le> length data"
    using len by simp
  have "16 + uint (data ! 4) * 16384 \<le> int (length data)"
    using banks len by simp
  from load_rom_accepts [of fs path data s, OF fl l16 mg this]
  have res: "load_rom fs s path = (Inr True, s3)"
    using banks c1 c2 r by (simp add: Let_def)
  show ?thesis
    using res m3 lo hi by simp
qed

theorem load_rom_single_bank_witness:
  "[''game.nes'' \<mapsto> magic @ [1] @ replicate 11 0 @ replicate 16384 0xAB] ''game.nes''
      = Some (magic @ [1] @ replicate 11 0 @ replicate 16384 0xAB)
   \<and> length (memory init) = 65536
   \<and> py_slice (magic @ [1] @ replicate 11 0 @ replicate 16384 (0xAB :: byte)) 0 4 = magic
   \<and> (magic @ [1] @ replicate 11 0 @ replicate 16384 (0xAB :: byte)) ! 4 = 1
   \<and> 16 + 16384 \<le> length (magic @ [1] @ replicate 11 0 @ replicate 16384 (0xAB :: byte))
   \<and> fst (load_rom [''game.nes'' \<mapsto> magic @ [1] @ replicate 11 0 @ replicate 16384 0xAB]
             init ''game.nes'') = Inr True
   \<and> py_slice (memory (snd (load_rom
          [''game.nes'' \<mapsto> magic @ [1] @ replicate 11 0 @ replicate 16384 0xAB]
          init ''game.nes''))) 0x8000 0xC000 = replicate 16384 0xAB
   \<and> py_slice (memory (snd (load_rom
          [''game.nes'' \<mapsto> magic @ [1] @ replicate 11 0 @ replicate 16384 0xAB]
          init ''game.nes''))) 0xC000 0x10000 = replicate 16384 0xAB"
proof -
  let ?data = "magic @ [1] @ replicate 11 0 @ replicate 16384 (0xAB :: byte)"
  let ?fs = "[''game.nes'' \<mapsto> ?data]"
  have fl: "?fs ''game.nes'' = Some ?data"
    by simp
  have mem: "length (memory init) = 65536"
    by (simp add: init_def)
  have mg: "py_slice ?data 0 4 = magic"
    by (simp add: py_slice_def magic_def)
  have banks: "?data ! 4 = 1"
    by (simp add: magic_def nth_append)
  have len: "16 + 16384 \<le> length ?data"
    by (simp add: magic_def)
  have B: "map uint (py_slice ?data 16 (16 + 16384)) = replicate 16384 0xAB"
    by (simp add: py_slice_def magic_def)
  note t = load_rom_single_bank [of ?fs "''game.nes''" ?data init, OF fl mem mg banks len]
  from t have t1: "fst (load_rom ?fs init ''game.nes'') = Inr True"
    by blast
  from t have "py_slice (memory (snd (load_rom ?fs init ''game.nes''))) 0x8000 0xC000
                 = map uint (py_slice ?data 16 (16 + 16384))"
    by blast
  then have t2: "py_slice (memory (snd (load_rom ?fs init ''game.nes''))) 0x8000 0xC000
                 = replicate 16384 0xAB"
    by (simp only: B)
  from t have "py_slice (memory (snd (load_rom ?fs init ''game.nes''))) 0xC000 0x10000
                 = map uint (py_slice ?data 16 (16 + 16384))"
    by blast
  then have t3: "py_slice (memory (snd (load_rom ?fs init ''game.nes''))) 0xC000 0x10000
                 = replicate 16384 0xAB"
    by (simp only: B)
  from fl mem mg banks len t1 t2 t3 show ?thesis
    by blast
qed

text \<open>
  C5: for a file with the magic bytes, bank count 2 and at least \<open>16 + 32768\<close>
  bytes, \<open>load_rom\<close> returns \<open>True\<close>, the window \<open>0x8000 .. 0xBFFF\<close> holds the first
  bank and the window \<open>0xC000 .. 0xFFFF\<close> holds the second bank.
\<close>

theorem load_rom_two_banks:
  assumes fl: "fs path = Some data"
    and mem: "length (memory s) = 65536"
    and mg: "py_slice data 0 4 = magic"
    and banks: "data ! 4 = 2"
    and len: "16 + 32768 \<le> length data"
  shows "fst (load_rom fs s path) = Inr True
       \<and> py_slice (memory (snd (load_rom fs s path))) 0x8000 0xC000
            = map uint (py_slice data 16 (16 + 16384))
       \<and> py_slice (memory (snd (load_rom fs s path))) 0xC000 0x10000
            = map uint (py_slice data (16 + 16384) (16 + 32768))"
proof -
  let ?B1 = "py_slice data 16 (16 + 16384)"
  let ?B2 = "py_slice data (16 + 16384) (16 + 32768)"
  have lenB1: "length ?B1 = 16384" and lenB2: "length ?B2 = 16384"
    using len by (simp_all add: py_slice_def)
  from copy_two_banks [OF mem lenB1 lenB2] obtain m1 m2 where
    c1: "copy_bank 0x8000 ?B1 [0..<length ?B1] s = (Inr (), s\<lparr>memory := m1\<rparr>)"
    and c2: "copy_bank 0xC000 ?B2 [0..<length ?B2] (s\<lparr>memory := m1\<rparr>) = (Inr (), s\<lparr>memory := m2\<rparr>)"
    and l2: "length m2 = 65536"
    and lo: "py_slice m2 0x8000 0xC000 = map uint ?B1"
    and hi: "py_slice m2 0xC000 0x10000 = map uint ?B2"
    by blast
  obtain s3 where r: "reset (s\<lparr>memory := m2\<rparr>) = (Inr (), s3)" and m3: "memory s3 = m2"
    using reset_ok [of "s\<lparr>memory := m2\<rparr>"] l2 by simp
  have l16: "16 \<le> length data"
    using len by simp
  have "16 + uint (data ! 4) * 16384 \<le> int (length data)"
    using banks len by simp
  from load_rom_accepts [of fs path data s, OF fl l16 mg this]
  have res: "load_rom fs s path = (Inr True, s3)"
    using banks c1 c2 r by (simp add: Let_def)
  show ?thesis
    using res m3 lo hi by simp
qed

theorem load_rom_two_banks_witness:
  "[''game.nes'' \<mapsto> magic @ [2] @ replicate 11 0 @ replicate 16384 0xAA @ replicate 16384 0xBB]
      ''game.nes''
      = Some (magic @ [2] @ replicate 11 0 @ replicate 16384 0xAA @ replicate 16384 0xBB)
   \<and> length (memory init) = 65536
   \<and> py_slice (magic @ [2] @ replicate 11 0 @ replicate 16384 0xAA
                 @ replicate 16384 (0xBB :: byte)) 0 4 = magic
   \<and> (magic @ [2] @ replicate 11 0 @ replicate 16384 0xAA @ replicate 16384 (0xBB :: byte)) ! 4 = 2
   \<and> 16 + 32768 \<le> length (magic @ [2] @ replicate 11 0 @ replicate 16384 0xAA
                              @ replicate 16384 (0xBB :: byte))
   \<and> fst (load_rom
          [''game.nes'' \<mapsto> magic @ [2] @ replicate 11 0 @ replicate 16384 0xAA @ replicate 16384 0xBB]
          init ''game.nes'') = Inr True
   \<and> py_slice (memory (snd (load_rom
          [''game.nes'' \<mapsto> magic @ [2] @ replicate 11 0 @ replicate 16384 0xAA @ replicate 16384 0xBB]
          init ''game.nes''))) 0x8000 0xC000 = replicate 16384 0xAA
   \<and> py_slice (memory (snd (load_rom
          [''game.nes'' \<mapsto> magic @ [2] @ replicate 11 0 @ replicate 16384 0xAA @ replicate 16384 0xBB]
          init ''game.nes''))) 0xC000 0x10000 = replicate 16384 0xBB"
proof -
  let ?data = "magic @ [2] @ replicate 11 0 @ replicate 16384 0xAA @ replicate 16384 (0xBB :: byte)"
  let ?fs = "[''game.nes'' \<mapsto> ?data]"
  have fl: "?fs ''game.nes'' = Some ?data"
    by simp
  have mem: "length (memory init) = 65536"
    by (simp add: init_def)
  have mg: "py_slice ?data 0 4 = magic"
    by (simp add: py_slice_def magic_def)
  have banks: "?data ! 4 = 2"
    by (simp add: magic_def nth_append)
  have len: "16 + 32768 \<le> length ?data"
    by (simp add: magic_def)
  have B1: "map uint (py_slice ?data 16 (16 + 16384)) = replicate 16384 0xAA"
    by (simp add: py_slice_def magic_def)
  have B2: "map uint (py_slice ?data (16 + 16384) (16 + 32768)) = replicate 16384 0xBB"
    by (simp add: py_slice_def magic_def)
  note t = load_rom_two_banks [of ?fs "''game.nes''" ?data init, OF fl mem mg banks len]
  from t have t1: "fst (load_rom ?fs init ''game.nes'') = Inr True"
    by blast
  from t have "py_slice (memory (snd (load_rom ?fs init ''game.nes''))) 0x8000 0xC000
                 = map uint (py_slice ?data 16 (16 + 16384))"
    by blast
  then have t2: "py_slice (memory (snd (load_rom ?fs init ''game.nes''))) 0x8000 0xC000
                 = replicate 16384 0xAA"
    by (simp only: B1)
  from t have "py_slice (memory (snd (load_rom ?fs init ''game.nes''))) 0xC000 0x10000
                 = map uint (py_slice ?data (16 + 16384) (16 + 32768))"
    by blast
  then have t3: "py_slice (memory (snd (load_rom ?fs init ''game.nes''))) 0xC000 0x10000
                 = replicate 16384 0xBB"
    by (simp only: B2)
  from fl mem mg banks len t1 t2 t3 show ?thesis
    by blast
qed

text \<open>
  C6: a file shorter than 16 bytes, or without the magic bytes, or shorter than
  \<open>16 + bank_count * 16384\<close> bytes (the bank count being the byte at offset 4) makes
  \<open>load_rom\<close> return \<open>False\<close> with the whole object, memory and registers, as it
  was before the call.
\<close>

theorem load_rom_rejects:
  assumes fl: "fs path = Some data"
    and bad: "length data < 16 \<or> py_slice data 0 4 \<noteq> magic
              \<or> int (length data) < 16 + uint (data ! 4) * 16384"
  shows "load_rom fs s path = (Inr False, s)"
  using assms by (auto simp: load_rom_def Let_def)

theorem load_rom_rejects_witness:
  "[''cut.nes'' \<mapsto> magic @ [2] @ replicate 11 0] ''cut.nes'' = Some (magic @ [2] @ replicate 11 0)
   \<and> int (length (magic @ [2] @ replicate 11 (0 :: byte)))
        < 16 + uint ((magic @ [2] @ replicate 11 (0 :: byte)) ! 4) * 16384
   \<and> load_rom [''cut.nes'' \<mapsto> magic @ [2] @ replicate 11 0] init ''cut.nes'' = (Inr False, init)"
proof -
  let ?data = "magic @ [2] @ replicate 11 (0 :: byte)"
  let ?fs = "[''cut.nes'' \<mapsto> ?data]"
  have fl: "?fs ''cut.nes'' = Some ?data"
    by simp
  have short: "int (length ?data) < 16 + uint (?data ! 4) * 16384"
    by (simp add: magic_def nth_append)
  then have "length ?data < 16 \<or> py_slice ?data 0 4 \<noteq> magic
              \<or> int (length ?data) < 16 + uint (?data ! 4) * 16384"
    by blast
  from load_rom_rejects [of ?fs "''cut.nes''" ?data init, OF fl this] fl short show ?thesis
    by blast
qed

text \<open>
  C10: a file of exactly 16 bytes with the magic bytes and bank count 0 is accepted:
  \<open>load_rom\<close> returns \<open>True\<close>, writes no memory cell and runs \<open>reset\<close>; on a memory
  of zeros the new PC is 0.
\<close>

theorem load_rom_no_banks:
  assumes fl: "fs path = Some data"
    and mem: "length (memory s) = 65536"
    and len: "length data = 16"
    and mg: "py_slice data 0 4 = magic"
    and banks: "data ! 4 = 0"
  shows "load_rom fs s path = (Inr True, snd (reset s))
       \<and> memory (snd (load_rom fs s path)) = memory s
       \<and> snd (reset s) = s\<lparr>A := 0, X := 0, Y := 0, sp := 0xFD, P := 0x04,
                             pc := push_bit 8 (memory s ! 0xFFFD) OR (memory s ! 0xFFFC)\<rparr>
       \<and> (memory s = replicate 0x10000 0 \<longrightarrow> pc (snd (load_rom fs s path)) = 0)"
proof -
  have e1: "py_slice data 16 (16 + 16384) = []"
    and e2: "py_slice data (16 + 16384) (16 + 32768) = []"
    using len by (simp_all add: py_slice_def)
  have l16: "16 \<le> length data"
    using len by simp
  have "16 + uint (data ! 4) * 16384 \<le> int (length data)"
    using banks len by simp
  from load_rom_accepts [of fs path data s, OF fl l16 mg this]
  have res: "load_rom fs s path = (Inr True, snd (reset s))"
    using banks e1 e2 reset_ok [OF mem] by (simp add: Let_def)
  show ?thesis
    using res reset_ok [OF mem] by simp
qed

theorem load_rom_no_banks_witness:
  "[''empty.nes'' \<mapsto> magic @ [0] @ replicate 11 0] ''empty.nes''
      = Some (magic @ [0] @ replicate 11 0)
   \<and> length (memory init) = 65536
   \<and> length (magic @ [0] @ replicate 11 (0 :: byte)) = 16
   \<and> py_slice (magic @ [0] @ replicate 11 (0 :: byte)) 0 4 = magic
   \<and> (magic @ [0] @ replicate 11 (0 :: byte)) ! 4 = 0
   \<and> memory init = replicate 0x10000 0
   \<and> load_rom [''empty.nes'' \<mapsto> magic @ [0] @ replicate 11 0] init ''empty.nes''
        = (Inr True, init\<lparr>P := 0x04\<rparr>)
   \<and> pc (snd (load_rom [''empty.nes'' \<mapsto> magic @ [0] @ replicate 11 0] init ''empty.nes'')) = 0"
proof -
  let ?data = "magic @ [0] @ replicate 11 (0 :: byte)"
  let ?fs = "[''empty.nes'' \<mapsto> ?data]"
  have fl: "?fs ''empty.nes'' = Some ?data"
    by simp
  have mem: "length (memory init) = 65536"
    by (simp add: init_def)
  have len: "length ?data = 16"
    by (simp add: magic_def)
  have mg: "py_slice ?data 0 4 = magic"
    by (simp add: py_slice_def magic_def)
  have banks: "?data ! 4 = 0"
    by (simp add: magic_def nth_append)
  have zero: "memory init = replicate 0x10000 0"
    by (simp add: init_def)
  note t = load_rom_no_banks [of ?fs "''empty.nes''" ?data init, OF fl mem len mg banks]
  from t zero have p: "pc (snd (load_rom ?fs init ''empty.nes'')) = 0"
    by blast
  from t have "load_rom ?fs init ''empty.nes'' = (Inr True, snd (reset init))"
    and "snd (reset init) = init\<lparr>A := 0, X := 0, Y := 0, sp := 0xFD, P := 0x04,
                             pc := push_bit 8 (memory init ! 0xFFFD) OR (memory init ! 0xFFFC)\<rparr>"
    by blast+
  then have "load_rom ?fs init ''empty.nes'' = (Inr True, init\<lparr>P := 0x04\<rparr>)"
    by (simp add: init_def)
  with fl mem len mg banks zero p show ?thesis
    by blast
qed

section \<open>The execution loop\<close>

text \<open>
  C7: started with \<open>running\<close> set and the opcode \<open>0x00\<close> at PC, the loop returns
  after exactly one call of \<open>fetch_byte\<close> (the count goes from \<open>n\<close> to \<open>Suc n\<close>),
  with \<open>running\<close> cleared and PC advanced by one. The loop is tail recursive, so
  the same holds from any state a run passes through.
\<close>

theorem emulator_loop_halts:
  assumes mem: "length (memory s) = 65536"
    and run: "running s"
    and brk: "memory s ! nat (pc s AND 0xFFFF) = 0x00"
  shows "emulator_loop s n = Some (s\<lparr>pc := (pc s + 1) mod 65536, running := False\<rparr>, Suc n)
       \<and> fst (fetch_byte s) = Inr 0x00
       \<and> (0 \<le> pc s \<and> pc s < 65536 \<longrightarrow> pc s AND 0xFFFF = pc s)"
  using emulator_loop_brk [OF assms] fetch_byte_ok [OF mem] brk
  by (simp add: and_FFFF_mod)

theorem emulator_loop_halts_witness:
  "length (memory (init\<lparr>pc := 0x8000, running := True\<rparr>)) = 65536
   \<and> running (init\<lparr>pc := 0x8000, running := True\<rparr>)
   \<and> (0::int) \<le> 0x8000 \<and> (0x8000::int) < 65536
   \<and> memory (init\<lparr>pc := 0x8000, running := True\<rparr>) ! nat 0x8000 = 0x00
   \<and> emulator_loop (init\<lparr>pc := 0x8000, running := True\<rparr>) 0
        = Some (init\<lparr>pc := 0x8001, running := False\<rparr>, 1)"
proof -
  let ?s = "init\<lparr>pc := 0x8000, running := True\<rparr>"
  have mem: "length (memory ?s) = 65536"
    by (simp add: init_def)
  have run: "running ?s"
    by simp
  have rng: "0 \<le> pc ?s \<and> pc ?s < 65536"
    by simp
  have cell: "memory ?s ! nat 0x8000 = 0x00"
    by (simp add: init_def)
  note t = emulator_loop_halts [OF mem run, of 0]
  from t rng have "pc ?s AND 0xFFFF = pc ?s"
    by (simp add: init_def)
  then have brk: "memory ?s ! nat (pc ?s AND 0xFFFF) = 0x00"
    using cell by simp
  from t [OF brk] have "emulator_loop ?s 0 = Some (init\<lparr>pc := 0x8001, running := False\<rparr>, 1)"
    by (simp add: init_def)
  with mem run cell show ?thesis
    by simp
qed


section \<open>Start and stop\<close>

text \<open>
  The two guards: \<open>stop\<close> on a stopped engine and \<open>start\<close> on a running engine
  change nothing.
\<close>

lemma stop_when_stopped: "\<not> running (nes_obj m) \<Longrightarrow> stop m = m"
  by (simp add: stop_def)

lemma start_when_running: "running (nes_obj m) \<Longrightarrow> start m = m"
  by (simp add: start_def)

text \<open>
  C9: \<open>start()\<close> followed by \<open>stop()\<close> is to return with the engine stopped and no
  loop thread alive, and no two loops are ever to be active together. The code does not
  keep this. On a new object the loop thread fetches \<open>0x00\<close>, clears \<open>running\<close> and
  goes to sleep; \<open>stop()\<close> then returns at its guard without joining, with the thread
  still alive (\<open>Sleep\<close>). A further \<open>start()\<close> starts a second thread, both threads
  pass the loop test (\<open>Body\<close>, \<open>Body\<close>), and the first thread fetches again (PC
  goes from 1 to 2).
\<close>

theorem stop_without_join:
  "run [CallStart, Step 0, Step 0, CallStop] machine_init
     = \<lparr>nes_obj = init\<lparr>pc := 1\<rparr>, thread = Some 0, threads = [Sleep], joining = False\<rparr>
   \<and> run [CallStart, Step 0, Step 0, CallStop, CallStart, Step 0, Step 0, Step 1] machine_init
     = \<lparr>nes_obj = init\<lparr>pc := 1, running := True\<rparr>, thread = Some 1,
        threads = [Body, Body], joining = False\<rparr>
   \<and> run [CallStart, Step 0, Step 0, CallStop, CallStart, Step 0, Step 0, Step 1, Step 0] machine_init
     = \<lparr>nes_obj = init\<lparr>pc := 2\<rparr>, thread = Some 1,
        threads = [Sleep, Body], joining = False\<rparr>"
proof -
  have f0: "fetch_byte (init\<lparr>running := True\<rparr>) = (Inr 0, init\<lparr>pc := 1, running := True\<rparr>)"
    using fetch_byte_zero [of "init\<lparr>running := True\<rparr>"] by (simp add: init_def)
  have e0: "emulator_step (init\<lparr>running := True\<rparr>) = init\<lparr>pc := 1\<rparr>"
    using emulator_step_zero [of "init\<lparr>running := True\<rparr>"] by (simp add: init_def)
  have f1: "fetch_byte (init\<lparr>pc := 1, running := True\<rparr>) = (Inr 0, init\<lparr>pc := 2, running := True\<rparr>)"
    using fetch_byte_zero [of "init\<lparr>pc := 1, running := True\<rparr>"] by (simp add: init_def)
  have e1: "emulator_step (init\<lparr>pc := 1, running := True\<rparr>) = init\<lparr>pc := 2\<rparr>"
    using emulator_step_zero [of "init\<lparr>pc := 1, running := True\<rparr>"] by (simp add: init_def)
  have r0: "running init = False"
    by (simp add: init_def)
  have a: "run [CallStart, Step 0, Step 0, CallStop] machine_init
     = \<lparr>nes_obj = init\<lparr>pc := 1\<rparr>, thread = Some 0, threads = [Sleep], joining = False\<rparr>"
    by (simp add: run_def exec_def start_def stop_def join_returns_def thread_step_def
          machine_init_def f0 e0 r0)
  have b: "run [CallStart, Step 0, Step 0, Step 1]
             \<lparr>nes_obj = init\<lparr>pc := 1\<rparr>, thread = Some 0, threads = [Sleep], joining = False\<rparr>
     = \<lparr>nes_obj = init\<lparr>pc := 1, running := True\<rparr>, thread = Some 1,
        threads = [Body, Body], joining = False\<rparr>"
    by (simp add: run_def exec_def start_def stop_def join_returns_def thread_step_def r0)
  have c: "run [Step 0]
             \<lparr>nes_obj = init\<lparr>pc := 1, running := True\<rparr>, thread = Some 1,
              threads = [Body, Body], joining = False\<rparr>
     = \<lparr>nes_obj = init\<lparr>pc := 2\<rparr>, thread = Some 1,
        threads = [Sleep, Body], joining = False\<rparr>"
    by (simp add: run_def exec_def join_returns_def thread_step_def f1 e1)
  have app: "run (xs @ ys) m = run ys (run xs m)" for xs ys m
    by (simp add: run_def)
  have b': "run [CallStart, Step 0, Step 0, CallStop, CallStart, Step 0, Step 0, Step 1] machine_init
     = \<lparr>nes_obj = init\<lparr>pc := 1, running := True\<rparr>, thread = Some 1,
        threads = [Body, Body], joining = False\<rparr>"
    using app [of "[CallStart, Step 0, Step 0, CallStop]" "[CallStart, Step 0, Step 0, Step 1]" machine_init]
    by (simp only: a b append.simps)
  have c': "run [CallStart, Step 0, Step 0, CallStop, CallStart, Step 0, Step 0, Step 1, Step 0] machine_init
     = \<lparr>nes_obj = init\<lparr>pc := 2\<rparr>, thread = Some 1,
        threads = [Sleep, Body], joining = False\<rparr>"
    using app [of "[CallStart, Step 0, Step 0, CallStop, CallStart, Step 0, Step 0, Step 1]" "[Step 0]" machine_init]
    by (simp only: b' c append.simps)
  from a b' c' show ?thesis
    by (intro conjI)
qed

end
